theory Spec2Isabelle
  imports Complex_Main
begin

section \<open>JavaScript primitives used by \<open>SunImage\<close>\<close>

text \<open>
  The time helpers of \<open>SunImage\<close> (\<open>getAngle\<close>, \<open>getRenderAngle\<close>, \<open>formatTime\<close>,
  \<open>getTwilight\<close>) are built from a few primitives of the language: \<open>String.split\<close>,
  \<open>Number\<close> applied to a string, the arithmetic of doubles with its remainder operator
  \<open>%\<close>, and the conversion of a number to a string inside a template literal. They are
  modelled first.

  A string is a list of characters; HOL characters are 8-bit, so the model covers the
  strings whose code units are below 256.
\<close>

subsection \<open>\<open>split(":")\<close>\<close>

text \<open>
  \<open>s.split(":")\<close> cuts at every colon and keeps empty pieces; the result always has at
  least one element (\<open>"".split(":")\<close> is \<open>[""]\<close>).
\<close>

fun split_colon :: "string \<Rightarrow> string list" where
  "split_colon [] = [[]]"
| "split_colon (c # cs) =
     (if c = CHR '':'' then [] # split_colon cs
      else (case split_colon cs of
              [] \<Rightarrow> [[c]]
            | f # fs \<Rightarrow> (c # f) # fs))"

subsection \<open>Doubles\<close>

text \<open>
  A JavaScript number is an IEEE 754 double. A finite double is modelled by the rational
  number it denotes, and an arithmetic operation by the exact operation followed by
  \<open>fl\<close>, the rounding to the nearest double, a tie going to the even significand. With
  \<open>e\<close> the binary exponent of \<open>q\<close>, at least \<open>-1022\<close>, the doubles near \<open>q\<close> are the integer
  multiples of \<open>2^(e - 52)\<close>. \<open>fl\<close> does not overflow: a result of magnitude \<open>2^1024\<close> or more
  stands for an infinity, which \<open>Number\<close> below tests for and which the angle arithmetic
  never reaches.
\<close>

function bit_length :: "int \<Rightarrow> int" where
  "bit_length n = (if n \<le> 0 then 0 else 1 + bit_length (n div 2))"
  by auto
termination
  by (relation "measure nat") auto

declare bit_length.simps [simp del]

text \<open>\<open>ilog2 q\<close> is the floor of the binary logarithm of a positive \<open>q\<close>.\<close>

definition ilog2 :: "rat \<Rightarrow> int" where
  "ilog2 q =
     (if 1 \<le> q then bit_length \<lfloor>q\<rfloor> - 1
      else - bit_length (\<lceil>1 / q\<rceil> - 1))"

definition pow2 :: "int \<Rightarrow> rat" where
  "pow2 k = (if 0 \<le> k then 2 ^ nat k else 1 / 2 ^ nat (- k))"

definition round_even :: "rat \<Rightarrow> int" where
  "round_even x =
     (let f = \<lfloor>x\<rfloor>; d = x - of_int f in
      if d < 1 / 2 then f
      else if 1 / 2 < d then f + 1
      else if even f then f else f + 1)"

definition fl :: "rat \<Rightarrow> rat" where
  "fl q =
     (if q = 0 then 0
      else
        let e = max (ilog2 \<bar>q\<bar>) (- 1022);
            u = pow2 (e - 52)
        in of_int (round_even (q / u)) * u)"

text \<open>\<open>Math.PI\<close>, the double nearest to the number pi.\<close>

definition Math_PI :: rat where
  "Math_PI = 884279719003555 / 2 ^ 48"

subsection \<open>\<open>Number(string)\<close>\<close>

text \<open>
  The value of \<open>Number(s)\<close> is \<open>JNaN\<close>, an infinity, or a finite double. A finite double
  that is an integer is \<open>JInt v\<close>, any other is \<open>JDbl d\<close>. A literal that writes an integer
  below \<open>2^53\<close> with digits alone is that integer, which is a double; the value of any
  other literal is rounded by \<open>fl\<close>.

  The time helpers compute with \<open>JInt\<close> fields only. Where a field in range is a \<open>JDbl\<close>,
  their result depends on the arithmetic and the printing of fractions, which are not
  modelled, and is \<open>Unmodelled\<close>.
\<close>

datatype jsnum = JNaN | JInt int | JDbl rat | JPosInf | JNegInf

datatype 'a outcome = Val 'a | Unmodelled

definition is_ws :: "char \<Rightarrow> bool" where
  "is_ws c \<longleftrightarrow> (of_char c :: nat) \<in> {9, 10, 11, 12, 13, 32, 160}"

definition trim_ws :: "string \<Rightarrow> string" where
  "trim_ws s = rev (dropWhile is_ws (rev (dropWhile is_ws s)))"

definition is_digit :: "char \<Rightarrow> bool" where
  "is_digit c \<longleftrightarrow> (48::nat) \<le> of_char c \<and> of_char c \<le> (57::nat)"

definition digit_val :: "char \<Rightarrow> nat" where
  "digit_val c = of_char c - 48"

definition dec_value :: "string \<Rightarrow> nat" where
  "dec_value ds = foldl (\<lambda>acc c. 10 * acc + digit_val c) 0 ds"

text \<open>Digits of the prefixed literals \<open>0x\<close>, \<open>0o\<close>, \<open>0b\<close>: the value of a digit or letter.\<close>

definition radix_val :: "char \<Rightarrow> nat" where
  "radix_val c =
     (let n = (of_char c :: nat) in
      if 48 \<le> n \<and> n \<le> 57 then n - 48
      else if 97 \<le> n \<and> n \<le> 102 then n - 87
      else if 65 \<le> n \<and> n \<le> 70 then n - 55
      else 99)"

definition radix_value :: "nat \<Rightarrow> string \<Rightarrow> nat" where
  "radix_value b ds = foldl (\<lambda>acc c. b * acc + radix_val c) 0 ds"

definition nondecimal :: "string \<Rightarrow> nat option" where
  "nondecimal t =
     (case t of
        z # p # ds \<Rightarrow>
          (if z \<noteq> CHR ''0'' \<or> ds = [] then None
           else if (p = CHR ''x'' \<or> p = CHR ''X'') \<and> (\<forall>c \<in> set ds. radix_val c < 16)
             then Some (radix_value 16 ds)
           else if (p = CHR ''o'' \<or> p = CHR ''O'') \<and> (\<forall>c \<in> set ds. radix_val c < 8)
             then Some (radix_value 8 ds)
           else if (p = CHR ''b'' \<or> p = CHR ''B'') \<and> (\<forall>c \<in> set ds. radix_val c < 2)
             then Some (radix_value 2 ds)
           else None)
      | _ \<Rightarrow> None)"

definition pow10 :: "int \<Rightarrow> rat" where
  "pow10 k = (if 0 \<le> k then 10 ^ nat k else 1 / 10 ^ nat (- k))"

text \<open>The number for the exact value \<open>q\<close>, not negative, of a decimal literal.\<close>

definition of_decimal :: "rat \<Rightarrow> jsnum" where
  "of_decimal q =
     (let d = fl q in
      if 2 ^ 1024 \<le> d then JPosInf
      else if of_int \<lfloor>d\<rfloor> = d then JInt \<lfloor>d\<rfloor>
      else JDbl d)"

text \<open>
  An unsigned decimal literal: \<open>Infinity\<close>, or digits with an optional fraction and an
  optional exponent, at least one digit before or after the point.
\<close>

definition unsigned_decimal :: "string \<Rightarrow> jsnum" where
  "unsigned_decimal t =
     (if t = ''Infinity'' then JPosInf
      else
        let ip = takeWhile is_digit t;
            r1 = dropWhile is_digit t;
            dot = (r1 \<noteq> [] \<and> hd r1 = CHR ''.'');
            r2 = (if dot then tl r1 else r1);
            fp = takeWhile is_digit r2;
            r3 = dropWhile is_digit r2;
            r4 = tl r3;
            r5 = (if r4 \<noteq> [] \<and> (hd r4 = CHR ''+'' \<or> hd r4 = CHR ''-'') then tl r4 else r4);
            mantissa_ok = (ip \<noteq> [] \<or> (dot \<and> fp \<noteq> []));
            exponent_ok = (r3 = [] \<or>
              ((hd r3 = CHR ''e'' \<or> hd r3 = CHR ''E'') \<and> r5 \<noteq> [] \<and> (\<forall>c \<in> set r5. is_digit c)));
            exponent = (if r4 \<noteq> [] \<and> hd r4 = CHR ''-'' then - int (dec_value r5)
                        else int (dec_value r5))
        in if \<not> mantissa_ok \<or> \<not> exponent_ok then JNaN
           else if \<not> dot \<and> r3 = [] \<and> int (dec_value ip) < 2 ^ 53 then JInt (int (dec_value ip))
           else of_decimal (of_nat (dec_value (ip @ fp)) * pow10 (exponent - int (length fp))))"

fun js_neg :: "jsnum \<Rightarrow> jsnum" where
  "js_neg JNaN = JNaN"
| "js_neg (JInt v) = JInt (- v)"
| "js_neg (JDbl d) = JDbl (- d)"
| "js_neg JPosInf = JNegInf"
| "js_neg JNegInf = JPosInf"

definition str_decimal :: "string \<Rightarrow> jsnum" where
  "str_decimal t =
     (case t of
        [] \<Rightarrow> JNaN
      | c # cs \<Rightarrow>
          if c = CHR ''+'' then unsigned_decimal cs
          else if c = CHR ''-'' then js_neg (unsigned_decimal cs)
          else unsigned_decimal t)"

text \<open>
  \<open>Number(s)\<close>: white space is trimmed at both ends, the empty string is 0, a string
  that is no numeric literal is \<open>NaN\<close>.
\<close>

definition Number_js :: "string \<Rightarrow> jsnum" where
  "Number_js s =
     (let t = trim_ws s in
      if t = [] then JInt 0
      else case nondecimal t of
             Some v \<Rightarrow> if int v < 2 ^ 53 then JInt (int v) else of_decimal (of_nat v)
           | None \<Rightarrow> str_decimal t)"

fun isNaN :: "jsnum \<Rightarrow> bool" where
  "isNaN JNaN = True"
| "isNaN _ = False"

text \<open>Comparison with an integer constant. Every comparison with \<open>NaN\<close> is false.\<close>

fun js_lt :: "jsnum \<Rightarrow> int \<Rightarrow> bool" where
  "js_lt JNaN k = False"
| "js_lt (JInt v) k = (v < k)"
| "js_lt (JDbl d) k = (d < of_int k)"
| "js_lt JPosInf k = False"
| "js_lt JNegInf k = True"

fun js_gt :: "jsnum \<Rightarrow> int \<Rightarrow> bool" where
  "js_gt JNaN k = False"
| "js_gt (JInt v) k = (v > k)"
| "js_gt (JDbl d) k = (d > of_int k)"
| "js_gt JPosInf k = True"
| "js_gt JNegInf k = False"

subsection \<open>Remainder and number-to-string\<close>

text \<open>
  \<open>a % b\<close> truncates: the result has the sign of the dividend. On doubles it is exact,
  with no rounding.
\<close>

definition js_rem_int :: "int \<Rightarrow> int \<Rightarrow> int" where
  "js_rem_int a b = sgn a * (\<bar>a\<bar> mod \<bar>b\<bar>)"

definition js_trunc :: "rat \<Rightarrow> int" where
  "js_trunc r = (if 0 \<le> r then \<lfloor>r\<rfloor> else \<lceil>r\<rceil>)"

definition js_rem :: "rat \<Rightarrow> rat \<Rightarrow> rat" where
  "js_rem a b = a - b * of_int (js_trunc (a / b))"

definition digit_char :: "nat \<Rightarrow> char" where
  "digit_char n = ''0123456789'' ! n"

fun nat_str :: "nat \<Rightarrow> string" where
  "nat_str n = (if n < 10 then [digit_char n] else nat_str (n div 10) @ [digit_char (n mod 10)])"

declare nat_str.simps [simp del]

text \<open>\<open>`${n}`\<close> for an integer \<open>n\<close>.\<close>

definition num_str :: "int \<Rightarrow> string" where
  "num_str i = (if i < 0 then ''-'' @ nat_str (nat (- i)) else nat_str (nat i))"

section \<open>The time helpers of \<open>SunImage\<close>\<close>

type_synonym log = "string list"

text \<open>
  The three functions that take a time string start with the same test, modelled once:
  \<open>timeElements.length < 2 || isNaN(Number(timeElements[0])) || isNaN(Number(timeElements[1]))
  || Number(timeElements[0]) < 0 || Number(timeElements[0]) > 23 || Number(timeElements[1]) < 0
  || Number(timeElements[1]) > 59\<close>. Reading past the end of the array gives \<open>undefined\<close>,
  and \<open>Number(undefined)\<close> is \<open>NaN\<close>.
\<close>

definition field_num :: "string list \<Rightarrow> nat \<Rightarrow> jsnum" where
  "field_num timeElements i =
     (if i < length timeElements then Number_js (timeElements ! i) else JNaN)"

definition badTime :: "string list \<Rightarrow> bool" where
  "badTime timeElements \<longleftrightarrow>
     length timeElements < 2 \<or>
     isNaN (field_num timeElements 0) \<or>
     isNaN (field_num timeElements 1) \<or>
     js_lt (field_num timeElements 0) 0 \<or>
     js_gt (field_num timeElements 0) 23 \<or>
     js_lt (field_num timeElements 1) 0 \<or>
     js_gt (field_num timeElements 1) 59"

definition dquote :: char where
  "dquote = CHR 0x22"

text \<open>
  \<open>getAngle\<close>: the result is the angle together with the warnings logged.
\<close>

definition getAngle :: "string \<Rightarrow> (real \<times> log) outcome" where
  "getAngle timeStr =
     (let timeElements = split_colon timeStr in
      if badTime timeElements then
        Val (0, [''SunImage: getAngle() failed on input '' @ [dquote] @ timeStr @ [dquote]])
      else
        (case (field_num timeElements 0, field_num timeElements 1) of
           (JInt h, JInt m) \<Rightarrow> Val (of_int h * 15 + of_int m / 4, [])
         | _ \<Rightarrow> Unmodelled))"

text \<open>
  \<open>getRenderAngle\<close>, on a finite double: \<open>timeAngle + 180 - 90\<close> is two additions, each
  rounded; \<open>%\<close> is exact; \<open>renderAngle * Math.PI/180\<close> is a product and a quotient, each
  rounded.
\<close>

definition getRenderAngle :: "rat \<Rightarrow> rat" where
  "getRenderAngle timeAngle =
     (let renderAngle = fl (fl (timeAngle + 180) - 90);
          renderAngle = js_rem renderAngle 360;
          renderAngle = fl (fl (renderAngle * Math_PI) / 180)
      in renderAngle)"

text \<open>
  The zero padding written three times in the source,
  \<open>(n < 10) ? `0${n}` : `${n}`\<close>.
\<close>

definition pad2 :: "int \<Rightarrow> string" where
  "pad2 n = (if n < 10 then ''0'' @ num_str n else num_str n)"

definition formatTime :: "string \<Rightarrow> (string \<times> log) outcome" where
  "formatTime timeStr =
     (let timeElements = split_colon timeStr in
      if badTime timeElements then
        Val ('''', [''SunImage: formatTime() failed on input '' @ [dquote] @ timeStr])
      else
        (case (field_num timeElements 0, field_num timeElements 1) of
           (JInt h, JInt m) \<Rightarrow>
             let hour = js_rem_int h 12;
                 hour = (if hour = 0 then 12 else hour);
                 min = m;
                 minStr = pad2 min;
                 amPmStr = (if h > 11 then ''PM'' else ''AM'')
             in Val (num_str hour @ '':'' @ minStr @ '' '' @ amPmStr, [])
         | _ \<Rightarrow> Unmodelled))"

definition getTwilight :: "string \<Rightarrow> string \<Rightarrow> (string \<times> log) outcome" where
  "getTwilight timeStr amPm =
     (let timeElements = split_colon timeStr in
      if badTime timeElements then
        Val ('''', [''SunImage: getTwilight() failed on input '' @ [dquote] @ timeStr])
      else
        (case (field_num timeElements 0, field_num timeElements 1) of
           (JInt h, JInt m) \<Rightarrow>
             let hour = js_rem_int h 12;
                 hour = (if hour = 0 then 12 else hour);
                 min = m;
                 (min, hour) =
                   (if amPm = ''am'' then
                      (if min \<ge> 36 then (min - 36, hour - 1) else (min + 24, hour - 2))
                    else
                      (if min < 36 then (min + 24, hour + 1) else (min - 36, hour + 2)));
                 hourStr = pad2 hour;
                 minStr = pad2 min
             in Val (hourStr @ '':'' @ minStr, [])
         | _ \<Rightarrow> Unmodelled))"

section \<open>The parts of \<open>getImage\<close> that depend on the angles\<close>

text \<open>
  \<open>getImage\<close> is one long drawing routine. Two of its expressions decide something from
  the angles alone, the fill style of the sun marker and the choice of label slots; each
  is modelled as a function of the angles, with the constants of \<open>getImage\<close> it uses.
\<close>

definition twilightDegrees :: real where
  "twilightDegrees = 24"

definition sunUpColor :: string where
  "sunUpColor = ''#FFE000''"

definition sunDownColor :: string where
  "sunDownColor = ''#D1AF02''"

text \<open>The fill style of the inner disc of the sun marker.\<close>

definition sunFillStyle :: "real \<Rightarrow> real \<Rightarrow> real \<Rightarrow> string" where
  "sunFillStyle currentTimeAngle sunriseAngle sunsetAngle =
     (if currentTimeAngle > sunriseAngle \<and> currentTimeAngle < sunsetAngle
      then sunUpColor else sunDownColor)"

datatype Point = Point (px: int) (py: int)

definition labelSlots :: "Point list" where
  "labelSlots =
     [Point 400 330, Point 350 450, Point 350 700, Point 400 820,
      Point 1490 330, Point 1540 450, Point 1540 700, Point 1490 820,
      Point 1440 940]"

text \<open>The pair \<open>(sunriseXY, amTwilightXY)\<close> chosen from the sunrise angle.\<close>

definition sunriseLabels :: "real \<Rightarrow> Point \<times> Point" where
  "sunriseLabels sunriseAngle =
     (if sunriseAngle \<le> 90 then (labelSlots ! 2, labelSlots ! 3)
      else if sunriseAngle < 90 + twilightDegrees then (labelSlots ! 1, labelSlots ! 2)
      else (labelSlots ! 0, labelSlots ! 1))"

text \<open>The pair \<open>(sunsetXY, pmTwilightXY)\<close> chosen from the sunset angle.\<close>

definition sunsetLabels :: "real \<Rightarrow> Point \<times> Point" where
  "sunsetLabels sunsetAngle =
     (if sunsetAngle \<le> 270 - twilightDegrees then (labelSlots ! 4, labelSlots ! 5)
      else if sunsetAngle < 270 then (labelSlots ! 5, labelSlots ! 6)
      else if sunsetAngle \<le> 270 + 20 then (labelSlots ! 6, labelSlots ! 7)
      else (labelSlots ! 7, labelSlots ! 8))"

section \<open>Facts about the primitives\<close>

text \<open>
  A field made of decimal digits is read by \<open>Number\<close> as the number it writes, and the
  zero-padded strings that the source prints are such fields.
\<close>

lemma split_colon_nonempty: "split_colon s \<noteq> []"
  by (induction s) (auto split: list.splits)

lemma split_colon_no_colon: "CHR '':'' \<notin> set a \<Longrightarrow> split_colon a = [a]"
  by (induction a) auto

lemma split_colon_append:
  "CHR '':'' \<notin> set a \<Longrightarrow> split_colon (a @ CHR '':'' # r) = a # split_colon r"
  by (induction a) auto

lemma digit_char_code: "d < 10 \<Longrightarrow> (of_char (digit_char d) :: nat) = 48 + d"
proof -
  assume "d < 10"
  then have "d \<in> {0, 1, 2, 3, 4, 5, 6, 7, 8, 9}" by auto
  then show ?thesis
    by (auto simp: digit_char_def)
qed

lemma is_digit_digit_char: "d < 10 \<Longrightarrow> is_digit (digit_char d)"
  by (simp add: is_digit_def digit_char_code)

lemma digit_val_digit_char: "d < 10 \<Longrightarrow> digit_val (digit_char d) = d"
  by (simp add: digit_val_def digit_char_code)

lemma dec_value_snoc: "dec_value (ds @ [c]) = 10 * dec_value ds + digit_val c"
  by (simp add: dec_value_def)

lemma nat_str_digits: "\<forall>c \<in> set (nat_str n). is_digit c"
proof (induction n rule: nat_str.induct)
  case (1 n)
  show ?case
  proof (cases "n < 10")
    case True
    then show ?thesis by (simp add: nat_str.simps [of n] is_digit_digit_char)
  next
    case False
    then show ?thesis using 1
      by (simp add: nat_str.simps [of n] is_digit_digit_char)
  qed
qed

lemma nat_str_nonempty: "nat_str n \<noteq> []"
  by (simp add: nat_str.simps [of n])

lemma dec_value_nat_str: "dec_value (nat_str n) = n"
proof (induction n rule: nat_str.induct)
  case (1 n)
  show ?case
  proof (cases "n < 10")
    case True
    then show ?thesis by (simp add: nat_str.simps [of n] dec_value_def digit_val_digit_char)
  next
    case False
    then have "dec_value (nat_str n) = 10 * (n div 10) + n mod 10"
      using 1 by (simp add: nat_str.simps [of n] dec_value_snoc digit_val_digit_char)
    then show ?thesis by simp
  qed
qed

lemma is_digit_zero: "is_digit (CHR ''0'')"
  by (simp add: is_digit_def)

lemma dec_value_zero_Cons: "dec_value (CHR ''0'' # ds) = dec_value ds"
  by (simp add: dec_value_def digit_val_def)

lemma pad2_digits: "0 \<le> n \<Longrightarrow> \<forall>c \<in> set (pad2 n). is_digit c"
  by (simp add: pad2_def num_str_def nat_str_digits is_digit_zero)

lemma pad2_nonempty: "pad2 n \<noteq> []"
  by (simp add: pad2_def num_str_def nat_str_nonempty)

lemma dec_value_pad2: "0 \<le> n \<Longrightarrow> int (dec_value (pad2 n)) = n"
  by (simp add: pad2_def num_str_def dec_value_nat_str dec_value_zero_Cons)

lemma digit_not_ws: "is_digit c \<Longrightarrow> \<not> is_ws c"
  by (auto simp: is_digit_def is_ws_def)

lemma trim_ws_digits:
  assumes "ds \<noteq> []" and "\<forall>c \<in> set ds. is_digit c"
  shows "trim_ws ds = ds"
proof -
  have "\<not> is_ws (hd ds)" using assms by (simp add: digit_not_ws)
  then have a: "dropWhile is_ws ds = ds" using assms(1) by (cases ds) auto
  have "\<not> is_ws (hd (rev ds))" using assms by (simp add: digit_not_ws hd_rev)
  then have "dropWhile is_ws (rev ds) = rev ds" using assms(1) by (cases "rev ds") auto
  with a show ?thesis by (simp add: trim_ws_def)
qed

lemma nondecimal_digits:
  assumes "\<forall>c \<in> set ds. is_digit c"
  shows "nondecimal ds = None"
proof (cases ds)
  case Nil
  then show ?thesis by (simp add: nondecimal_def)
next
  case (Cons z r)
  show ?thesis
  proof (cases r)
    case Nil
    with Cons show ?thesis by (simp add: nondecimal_def)
  next
    case (Cons p r')
    with assms \<open>ds = z # r\<close> have "is_digit p" by simp
    then have "p \<noteq> CHR ''x''" "p \<noteq> CHR ''X''" "p \<noteq> CHR ''o''" "p \<noteq> CHR ''O''"
      "p \<noteq> CHR ''b''" "p \<noteq> CHR ''B''"
      by (auto simp: is_digit_def)
    with Cons \<open>ds = z # r\<close> show ?thesis by (simp add: nondecimal_def)
  qed
qed

lemma unsigned_decimal_digits:
  assumes "ds \<noteq> []" and "\<forall>c \<in> set ds. is_digit c" and "int (dec_value ds) < 2 ^ 53"
  shows "unsigned_decimal ds = JInt (int (dec_value ds))"
proof -
  have "\<not> is_digit (CHR ''I'')" by (simp add: is_digit_def)
  with assms(2) have ne: "ds \<noteq> ''Infinity''" by auto
  have t: "takeWhile is_digit ds = ds" using assms(2) by (simp add: takeWhile_eq_all_conv)
  have d: "dropWhile is_digit ds = []" using assms(2) by simp
  show ?thesis using ne assms(1,3) by (simp add: unsigned_decimal_def t d Let_def)
qed

lemma str_decimal_digits:
  assumes "ds \<noteq> []" and "\<forall>c \<in> set ds. is_digit c" and "int (dec_value ds) < 2 ^ 53"
  shows "str_decimal ds = JInt (int (dec_value ds))"
proof -
  obtain c cs where ds: "ds = c # cs" using assms(1) by (cases ds) auto
  with assms(2) have "is_digit c" by simp
  then have "c \<noteq> CHR ''+''" "c \<noteq> CHR ''-''" by (auto simp: is_digit_def)
  then show ?thesis
    using unsigned_decimal_digits [OF assms] ds by (simp add: str_decimal_def)
qed

lemma Number_js_digits:
  assumes "ds \<noteq> []" and "\<forall>c \<in> set ds. is_digit c" and "int (dec_value ds) < 2 ^ 53"
  shows "Number_js ds = JInt (int (dec_value ds))"
  using assms
  by (simp add: Number_js_def trim_ws_digits nondecimal_digits str_decimal_digits)

lemma Number_js_pad2:
  assumes "0 \<le> n" and "n < 2 ^ 53"
  shows "Number_js (pad2 n) = JInt n"
proof -
  have v: "int (dec_value (pad2 n)) = n" by (rule dec_value_pad2 [OF assms(1)])
  then have "int (dec_value (pad2 n)) < 2 ^ 53" using assms(2) by simp
  then show ?thesis
    using Number_js_digits [of "pad2 n"] pad2_digits [OF assms(1)] pad2_nonempty [of n] v
    by simp
qed

lemma Number_js_hour: "0 \<le> h \<Longrightarrow> h \<le> 23 \<Longrightarrow> Number_js (pad2 h) = JInt h"
  by (rule Number_js_pad2) simp_all

lemma Number_js_minute: "0 \<le> m \<Longrightarrow> m \<le> 59 \<Longrightarrow> Number_js (pad2 m) = JInt m"
  by (rule Number_js_pad2) simp_all

lemma colon_not_digit: "\<not> is_digit (CHR '':'')"
  by (simp add: is_digit_def)

lemma pad2_no_colon: "0 \<le> n \<Longrightarrow> CHR '':'' \<notin> set (pad2 n)"
  using pad2_digits [of n] colon_not_digit by auto

section \<open>Time strings with valid fields\<close>

text \<open>
  What the three functions compute when the first two fields are read as an hour and a
  minute in range. The time \<open>"HH:MM"\<close> is written \<open>pad2 h @ '':'' @ pad2 m\<close>.
\<close>

lemma time_fields:
  assumes "split_colon s = hf # mf # rest" and "Number_js hf = JInt h"
    and "Number_js mf = JInt m"
  shows "field_num (split_colon s) 0 = JInt h"
    and "field_num (split_colon s) (Suc 0) = JInt m"
    and "badTime (split_colon s) \<longleftrightarrow> h < 0 \<or> 23 < h \<or> m < 0 \<or> 59 < m"
  using assms by (simp_all add: field_num_def badTime_def)

lemma getAngle_fields:
  assumes "split_colon s = hf # mf # rest" and "Number_js hf = JInt h"
    and "Number_js mf = JInt m" and "0 \<le> h" and "h \<le> 23" and "0 \<le> m" and "m \<le> 59"
  shows "getAngle s = Val (of_int h * 15 + of_int m / 4, [])"
proof -
  have "\<not> badTime (split_colon s)"
    using time_fields(3) [OF assms(1-3)] assms(4-7) by simp
  then show ?thesis
    using time_fields(1,2) [OF assms(1-3)] by (simp add: getAngle_def)
qed

lemma split_hhmm:
  assumes "0 \<le> h" and "0 \<le> m"
  shows "split_colon (pad2 h @ '':'' @ pad2 m) = [pad2 h, pad2 m]"
  using assms by (simp add: split_colon_append split_colon_no_colon pad2_no_colon)

lemma split_hhmm_more:
  assumes "0 \<le> h" and "0 \<le> m"
  shows "split_colon (pad2 h @ '':'' @ pad2 m @ '':'' @ r) = pad2 h # pad2 m # split_colon r"
  using assms by (simp add: split_colon_append pad2_no_colon)

lemma js_rem_int_nonneg: "0 \<le> a \<Longrightarrow> js_rem_int a 12 = a mod 12"
  by (cases "a = 0") (simp_all add: js_rem_int_def)

lemma digit_char_0: "digit_char 0 = CHR ''0''"
  by (simp add: digit_char_def)

lemma pad2_two:
  assumes "0 \<le> n" and "n \<le> 99"
  shows "pad2 n = [digit_char (nat n div 10), digit_char (nat n mod 10)]"
proof (cases "n < 10")
  case True
  then have "nat n < 10" by simp
  then show ?thesis using True assms
    by (simp add: pad2_def num_str_def nat_str.simps [of "nat n"] digit_char_0)
next
  case False
  then have "nat n div 10 < 10" using assms by simp
  then have "nat_str (nat n div 10) = [digit_char (nat n div 10)]"
    by (simp add: nat_str.simps [of "nat n div 10"])
  then show ?thesis using False assms
    by (simp add: pad2_def num_str_def nat_str.simps [of "nat n"])
qed

lemma num_str_no_colon: "CHR '':'' \<notin> set (num_str i)"
  using nat_str_digits colon_not_digit by (auto simp: num_str_def)

lemma pad2_no_colon_any: "CHR '':'' \<notin> set (pad2 n)"
  using num_str_no_colon by (simp add: pad2_def)

lemma formatTime_fields:
  assumes "split_colon s = hf # mf # rest" and "Number_js hf = JInt h"
    and "Number_js mf = JInt m" and "0 \<le> h" and "h \<le> 23" and "0 \<le> m" and "m \<le> 59"
  shows "formatTime s =
    Val (num_str (if h mod 12 = 0 then 12 else h mod 12) @ '':'' @ pad2 m @ '' '' @
         (if 12 \<le> h then ''PM'' else ''AM''), [])"
proof -
  have "\<not> badTime (split_colon s)"
    using time_fields(3) [OF assms(1-3)] assms(4-7) by simp
  then show ?thesis
    using time_fields(1,2) [OF assms(1-3)] assms(4)
    by (simp add: formatTime_def js_rem_int_nonneg Let_def)
qed

lemma getTwilight_fields:
  assumes "split_colon s = hf # mf # rest" and "Number_js hf = JInt h"
    and "Number_js mf = JInt m" and "0 \<le> h" and "h \<le> 23" and "0 \<le> m" and "m \<le> 59"
  shows "getTwilight s amPm =
    Val (pad2 ((if h mod 12 = 0 then 12 else h mod 12) +
               (if amPm = ''am'' then (if 36 \<le> m then - 1 else - 2)
                else (if m < 36 then 1 else 2)))
         @ '':'' @ pad2 (if 36 \<le> m then m - 36 else m + 24), [])"
proof -
  have "\<not> badTime (split_colon s)"
    using time_fields(3) [OF assms(1-3)] assms(4-7) by simp
  then show ?thesis
    using time_fields(1,2) [OF assms(1-3)] assms(4)
    by (simp add: getTwilight_def js_rem_int_nonneg Let_def)
qed

section \<open>Facts about doubles\<close>

text \<open>
  \<open>ilog2\<close> is the binary exponent, so \<open>fl\<close> leaves every double as it is and moves no
  number across a power of two or across zero. These facts evaluate \<open>fl\<close>, and with it
  \<open>getRenderAngle\<close> and \<open>Number\<close>, at the inputs below.
\<close>

lemma pow2_powi: "pow2 k = 2 powi k"
  by (simp add: pow2_def power_int_def inverse_eq_divide power_one_over)

lemma pow2_pos: "0 < pow2 k"
  by (simp add: pow2_powi)

lemma pow2_add: "pow2 (a + b) = pow2 a * pow2 b"
  by (simp add: pow2_powi power_int_add)

lemma pow2_less_iff: "pow2 a < pow2 b \<longleftrightarrow> a < b"
proof
  assume "pow2 a < pow2 b"
  show "a < b"
  proof (rule ccontr)
    assume "\<not> a < b"
    then have "b \<le> a" by simp
    then have "pow2 b \<le> pow2 a" unfolding pow2_powi by (intro power_int_increasing) simp_all
    with \<open>pow2 a < pow2 b\<close> show False by simp
  qed
next
  assume "a < b"
  then show "pow2 a < pow2 b" unfolding pow2_powi by (intro power_int_strict_increasing) simp_all
qed

lemma pow2_le_iff: "pow2 a \<le> pow2 b \<longleftrightarrow> a \<le> b"
  using pow2_less_iff [of b a] by (simp add: linorder_not_less [symmetric])

lemma pow2_nat: "pow2 (int n) = 2 ^ n"
  by (simp add: pow2_def)

lemma bit_length_bounds:
  "0 < n \<Longrightarrow> 1 \<le> bit_length n \<and> 2 ^ nat (bit_length n - 1) \<le> n \<and> n < 2 ^ nat (bit_length n)"
proof (induction n rule: bit_length.induct)
  case (1 n)
  show ?case
  proof (cases "n = 1")
    case True
    then show ?thesis by (simp add: bit_length.simps [of 1] bit_length.simps [of 0])
  next
    case False
    with 1(2) have h: "0 < n div 2" by simp
    from 1(2) have nle: "\<not> n \<le> 0" by simp
    from 1(1) [OF nle h] have ih: "1 \<le> bit_length (n div 2)"
      "2 ^ nat (bit_length (n div 2) - 1) \<le> n div 2" "n div 2 < 2 ^ nat (bit_length (n div 2))"
      by simp_all
    have b: "bit_length n = 1 + bit_length (n div 2)"
      using nle by (simp add: bit_length.simps [of n])
    have e1: "nat (bit_length n - 1) = Suc (nat (bit_length (n div 2) - 1))"
      using b ih(1) by simp
    have e2: "nat (bit_length n) = Suc (nat (bit_length (n div 2)))"
      using b ih(1) by simp
    have "2 * 2 ^ nat (bit_length (n div 2) - 1) \<le> 2 * (n div 2)" using ih(2) by simp
    also have "\<dots> \<le> n" by simp
    finally have l: "2 ^ nat (bit_length n - 1) \<le> n" unfolding e1 by simp
    have "n div 2 + 1 \<le> 2 ^ nat (bit_length (n div 2))" using ih(3) by simp
    then have "2 * (n div 2) + 2 \<le> 2 * 2 ^ nat (bit_length (n div 2))" by simp
    moreover have "n < 2 * (n div 2) + 2" by simp
    ultimately have u: "n < 2 ^ nat (bit_length n)" unfolding e2 by simp
    show ?thesis using b ih(1) l u by simp
  qed
qed

lemma bit_length_pow2:
  assumes "0 < n"
  shows "pow2 (bit_length n - 1) \<le> of_int n" and "of_int n < pow2 (bit_length n)"
proof -
  from bit_length_bounds [OF assms] have b: "1 \<le> bit_length n"
    and l: "2 ^ nat (bit_length n - 1) \<le> n" and u: "n < 2 ^ nat (bit_length n)" by simp_all
  have "(of_int (2 ^ nat (bit_length n - 1)) :: rat) \<le> of_int n" using l by (simp only: of_int_le_iff)
  then show "pow2 (bit_length n - 1) \<le> of_int n" using b by (simp add: pow2_def)
  have "(of_int n :: rat) < of_int (2 ^ nat (bit_length n))" using u by (simp only: of_int_less_iff)
  then show "of_int n < pow2 (bit_length n)" using b by (simp add: pow2_def)
qed

lemma ilog2_bounds:
  assumes "0 < q"
  shows "pow2 (ilog2 q) \<le> q" and "q < pow2 (ilog2 q + 1)"
proof -
  have "pow2 (ilog2 q) \<le> q \<and> q < pow2 (ilog2 q + 1)"
  proof (cases "1 \<le> q")
    case True
    then have p: "0 < \<lfloor>q\<rfloor>" by simp
    have e: "ilog2 q = bit_length \<lfloor>q\<rfloor> - 1" using True by (simp add: ilog2_def)
    have "pow2 (bit_length \<lfloor>q\<rfloor> - 1) \<le> of_int \<lfloor>q\<rfloor>" by (rule bit_length_pow2(1) [OF p])
    also have "\<dots> \<le> q" by simp
    finally have l: "pow2 (ilog2 q) \<le> q" unfolding e .
    have "of_int (\<lfloor>q\<rfloor> + 1) \<le> pow2 (bit_length \<lfloor>q\<rfloor>)"
    proof -
      from bit_length_bounds [OF p] have b: "1 \<le> bit_length \<lfloor>q\<rfloor>"
        and "\<lfloor>q\<rfloor> + 1 \<le> 2 ^ nat (bit_length \<lfloor>q\<rfloor>)" by simp_all
      then have "(of_int (\<lfloor>q\<rfloor> + 1) :: rat) \<le> of_int (2 ^ nat (bit_length \<lfloor>q\<rfloor>))"
        by (simp only: of_int_le_iff)
      then show ?thesis using b by (simp add: pow2_def)
    qed
    moreover have "q < of_int (\<lfloor>q\<rfloor> + 1)" by linarith
    ultimately have "q < pow2 (ilog2 q + 1)" unfolding e by simp
    with l show ?thesis by simp
  next
    case False
    define m where "m = \<lceil>1 / q\<rceil> - 1"
    have q1: "q < 1" using False by simp
    then have "1 < 1 / q" using assms by simp
    then have mp: "0 < m" unfolding m_def by linarith
    have e: "ilog2 q = - bit_length m" using False by (simp add: ilog2_def m_def)
    from bit_length_bounds [OF mp] have b: "1 \<le> bit_length m"
      and lo: "2 ^ nat (bit_length m - 1) \<le> m" and up: "m + 1 \<le> 2 ^ nat (bit_length m)"
      by simp_all
    have "1 / q \<le> of_int (m + 1)" unfolding m_def by simp
    also have "\<dots> \<le> of_int (2 ^ nat (bit_length m))" using up by (simp only: of_int_le_iff)
    finally have "1 / q \<le> 2 ^ nat (bit_length m)" by simp
    then have "1 \<le> 2 ^ nat (bit_length m) * q" using assms by (simp add: field_simps)
    then have l: "pow2 (ilog2 q) \<le> q" unfolding e using b by (simp add: pow2_def field_simps)
    have "(of_int (2 ^ nat (bit_length m - 1)) :: rat) \<le> of_int m"
      using lo by (simp only: of_int_le_iff)
    also have "of_int m < 1 / q" unfolding m_def by linarith
    finally have "2 ^ nat (bit_length m - 1) * q < 1" using assms by (simp add: field_simps)
    then have u: "q < pow2 (ilog2 q + 1)"
    proof (cases "bit_length m = 1")
      case True
      then show ?thesis using q1 e by (simp add: pow2_def)
    next
      case False
      with b have "\<not> 0 \<le> - bit_length m + 1" by simp
      moreover have "nat (- (- bit_length m + 1)) = nat (bit_length m - 1)" by simp
      ultimately have pw: "pow2 (ilog2 q + 1) = 1 / 2 ^ nat (bit_length m - 1)"
        unfolding e pow2_def by simp
      have "q < 1 / 2 ^ nat (bit_length m - 1)"
        using \<open>2 ^ nat (bit_length m - 1) * q < 1\<close> by (simp add: field_simps)
      then show ?thesis by (simp only: pw)
    qed
    from l u show ?thesis by simp
  qed
  then show "pow2 (ilog2 q) \<le> q" and "q < pow2 (ilog2 q + 1)" by simp_all
qed

lemma ilog2_less: "0 < q \<Longrightarrow> q < pow2 k \<Longrightarrow> ilog2 q < k"
  using ilog2_bounds(1) [of q] pow2_less_iff [of "ilog2 q" k] by simp

lemma ilog2_ge: "0 < q \<Longrightarrow> pow2 k \<le> q \<Longrightarrow> k \<le> ilog2 q"
  using ilog2_bounds(2) [of q] pow2_less_iff [of k "ilog2 q + 1"] by simp

lemma round_even_of_int: "round_even (of_int n) = n"
  by (simp add: round_even_def)

lemma round_even_ge: "of_int n \<le> x \<Longrightarrow> n \<le> round_even x"
proof -
  assume "of_int n \<le> x"
  then have "n \<le> \<lfloor>x\<rfloor>" by (simp add: le_floor_iff)
  then show ?thesis by (auto simp: round_even_def Let_def)
qed

lemma fl_nonneg: "0 \<le> q \<Longrightarrow> 0 \<le> fl q"
proof -
  assume q: "0 \<le> q"
  have "0 \<le> round_even (q / pow2 k)" for k
    using q pow2_pos [of k] by (intro round_even_ge) simp
  then show ?thesis using pow2_pos by (simp add: fl_def Let_def less_imp_le)
qed

lemma round_even_minus: "round_even (- x) = - round_even x"
proof (cases "of_int \<lfloor>x\<rfloor> = x")
  case True
  then obtain n where "x = of_int n" by metis
  then show ?thesis using round_even_of_int [of n] round_even_of_int [of "- n"] by simp
next
  case False
  then have c: "\<lceil>x\<rceil> = \<lfloor>x\<rfloor> + 1" by (simp add: ceiling_altdef)
  have f: "\<lfloor>- x\<rfloor> = - \<lfloor>x\<rfloor> - 1" using c by (simp add: ceiling_def)
  show ?thesis unfolding round_even_def Let_def f by auto
qed

lemma fl_minus: "fl (- q) = - fl q"
  by (simp add: fl_def Let_def round_even_minus)

text \<open>A multiple of a power of two with a significand below \<open>2^53\<close> is a double.\<close>

lemma fl_exact:
  assumes "q = of_int n * pow2 k" and "\<bar>n\<bar> < 2 ^ 53" and "- 1074 \<le> k"
  shows "fl q = q"
proof (cases "q = 0")
  case True
  then show ?thesis by (simp add: fl_def)
next
  case False
  define e where "e = max (ilog2 \<bar>q\<bar>) (- 1022)"
  have qp: "0 < \<bar>q\<bar>" using False by simp
  have "(of_int \<bar>n\<bar> :: rat) < of_int (2 ^ 53)" using assms(2) by (simp only: of_int_less_iff)
  then have "(of_int \<bar>n\<bar> :: rat) < pow2 53" by (simp add: pow2_def)
  then have "of_int \<bar>n\<bar> * pow2 k < pow2 53 * pow2 k" using pow2_pos [of k] by simp
  moreover have "\<bar>q\<bar> = of_int \<bar>n\<bar> * pow2 k"
    unfolding assms(1) using pow2_pos [of k] by (simp add: abs_mult)
  ultimately have "\<bar>q\<bar> < pow2 (53 + k)" by (simp add: pow2_add)
  then have "ilog2 \<bar>q\<bar> < 53 + k" by (rule ilog2_less [OF qp])
  then have ek: "e \<le> k + 52" unfolding e_def using assms(3) by simp
  define j where "j = nat (k + 52 - e)"
  have kj: "k = (e - 52) + int j" unfolding j_def using ek by simp
  have "pow2 k = pow2 (e - 52) * 2 ^ j"
    by (subst kj, simp only: pow2_add pow2_nat)
  then have qe: "q = of_int (n * 2 ^ j) * pow2 (e - 52)"
    unfolding assms(1) by simp
  have ne: "pow2 (e - 52) \<noteq> 0" using pow2_pos [of "e - 52"] by simp
  have "q / pow2 (e - 52) = of_int (n * 2 ^ j)"
    by (subst qe) (simp only: nonzero_mult_div_cancel_right [OF ne])
  then have "round_even (q / pow2 (e - 52)) = n * 2 ^ j"
    by (simp only: round_even_of_int)
  then have "of_int (round_even (q / pow2 (e - 52))) * pow2 (e - 52) = q"
    using qe by simp
  then show ?thesis using False by (simp add: fl_def Let_def e_def)
qed

lemma fl_quarter:
  assumes "\<bar>k\<bar> < 2 ^ 53"
  shows "fl (of_int k / 4) = of_int k / 4"
proof -
  have "of_int k / 4 = of_int k * pow2 (- 2)" by (simp add: pow2_def)
  then show ?thesis using fl_exact [of "of_int k / 4" k "- 2"] assms by simp
qed

text \<open>Rounding does not cross a power of two from above.\<close>

lemma fl_lower:
  assumes "pow2 e \<le> q" and "- 1022 \<le> e"
  shows "pow2 e \<le> fl q"
proof -
  have qp: "0 < q" using assms(1) pow2_pos [of e] by simp
  define e' where "e' = ilog2 q"
  have ee: "e \<le> e'" unfolding e'_def using ilog2_ge [OF qp assms(1)] .
  then have m: "max (ilog2 \<bar>q\<bar>) (- 1022) = e'" using qp assms(2) by (simp add: e'_def)
  have "pow2 e' \<le> q" unfolding e'_def by (rule ilog2_bounds(1) [OF qp])
  then have "pow2 e' / pow2 (e' - 52) \<le> q / pow2 (e' - 52)"
    using pow2_pos [of "e' - 52"] by (simp add: divide_right_mono)
  moreover have "pow2 e' = pow2 (e' - 52) * pow2 52" by (simp add: pow2_add [symmetric])
  ultimately have "pow2 52 \<le> q / pow2 (e' - 52)" using pow2_pos [of "e' - 52"] by simp
  then have "of_int (2 ^ 52) \<le> q / pow2 (e' - 52)" by (simp add: pow2_def)
  then have "2 ^ 52 \<le> round_even (q / pow2 (e' - 52))" by (rule round_even_ge)
  then have "(of_int (2 ^ 52) :: rat) \<le> of_int (round_even (q / pow2 (e' - 52)))"
    by (simp only: of_int_le_iff)
  then have "pow2 52 * pow2 (e' - 52) \<le> of_int (round_even (q / pow2 (e' - 52))) * pow2 (e' - 52)"
    using pow2_pos [of "e' - 52"] by (simp add: pow2_def)
  then have "pow2 e' \<le> fl q" using qp m by (simp add: fl_def Let_def pow2_add [symmetric])
  moreover have "pow2 e \<le> pow2 e'" using ee by (simp add: pow2_le_iff)
  ultimately show ?thesis by simp
qed

lemma floor_rat_numeral: "\<lfloor>(numeral a :: rat) / numeral b\<rfloor> = numeral a div numeral b"
  using floor_divide_of_int_eq [of "numeral a" "numeral b", where ?'a = rat] by simp

lemma floor_rat_neg_numeral:
  "\<lfloor>- ((numeral a :: rat) / numeral b)\<rfloor> = - numeral a div numeral b"
  using floor_divide_of_int_eq [of "- numeral a" "numeral b", where ?'a = rat] by simp

lemma fl_at:
  assumes "pow2 e \<le> \<bar>q\<bar>" and "\<bar>q\<bar> < pow2 (e + 1)" and "- 1022 \<le> e"
  shows "fl q = of_int (round_even (q / pow2 (e - 52))) * pow2 (e - 52)"
proof -
  have qp: "0 < \<bar>q\<bar>" using assms(1) pow2_pos [of e] by simp
  have "e \<le> ilog2 \<bar>q\<bar>" by (rule ilog2_ge [OF qp assms(1)])
  moreover have "ilog2 \<bar>q\<bar> < e + 1" by (rule ilog2_less [OF qp assms(2)])
  ultimately have "ilog2 \<bar>q\<bar> = e" by simp
  then show ?thesis using qp assms(3) by (simp add: fl_def Let_def)
qed


lemma js_rem_nonneg: "0 \<le> x \<Longrightarrow> js_rem x 360 = x - 360 * of_int \<lfloor>x / 360\<rfloor>"
  unfolding js_rem_def js_trunc_def by simp

text \<open>On a quarter of a degree of moderate size the two additions are exact.\<close>

lemma render_degrees_quarter:
  assumes "a = of_int k / 4" and "- 90 \<le> a" and "a \<le> 2 ^ 50 + 360"
  shows "fl (fl (a + 180) - 90) = a + 180 - 90"
proof -
  have kb: "- 360 \<le> k" "k \<le> 2 ^ 52 + 1440"
  proof -
    have "(- 360 :: rat) \<le> of_int k" using assms(1,2) by simp
    then have "(of_int (- 360) :: rat) \<le> of_int k" by simp
    then show "- 360 \<le> k" by (simp only: of_int_le_iff)
    have "(of_int k :: rat) \<le> 2 ^ 52 + 1440" using assms(1,3) by simp
    then have "(of_int k :: rat) \<le> of_int (2 ^ 52 + 1440)" by simp
    then show "k \<le> 2 ^ 52 + 1440" by (simp only: of_int_le_iff)
  qed
  have s1: "a + 180 = of_int (k + 720) / 4" unfolding assms(1) by simp
  have s2: "a + 180 - 90 = of_int (k + 360) / 4" unfolding assms(1) by simp
  have "fl (a + 180) = a + 180" unfolding s1 using kb by (intro fl_quarter) simp
  moreover have "fl (a + 180 - 90) = a + 180 - 90" unfolding s2 using kb by (intro fl_quarter) simp
  ultimately show ?thesis by simp
qed

lemma radians_minus_10: "fl (fl (- 10 * Math_PI) / 180) < 0"
proof -
  have "pow2 4 \<le> 10 * Math_PI" by (simp add: pow2_def Math_PI_def)
  then have "pow2 4 \<le> fl (10 * Math_PI)" by (rule fl_lower) simp
  then have "pow2 (- 4) \<le> fl (10 * Math_PI) / 180" by (simp add: pow2_def)
  then have "pow2 (- 4) \<le> fl (fl (10 * Math_PI) / 180)" by (rule fl_lower) simp
  then have "0 < fl (fl (10 * Math_PI) / 180)" using pow2_pos [of "- 4"] by simp
  moreover have "fl (fl (- 10 * Math_PI) / 180) = - fl (fl (10 * Math_PI) / 180)"
    using fl_minus [of "10 * Math_PI"] fl_minus [of "fl (10 * Math_PI) / 180"] by simp
  ultimately show ?thesis by simp
qed

lemma degrees_at_minus_100: "js_rem (fl (fl (- 100 + 180) - 90)) 360 = - 10"
proof -
  have "fl (- 100 + 180) = 80" using fl_quarter [of 320] by simp
  moreover have "fl (80 - 90) = - 10" using fl_quarter [of "- 40"] by simp
  moreover have "\<lceil>- (1 / 36 :: rat)\<rceil> = 0" by (simp add: ceiling_eq_iff)
  ultimately show ?thesis by (simp add: js_rem_def js_trunc_def)
qed

lemma degrees_at_tiny: "js_rem (fl (fl (1 / 2 ^ 44 + 180) - 90)) 360 = 90 + 1 / 2 ^ 44"
proof -
  have p: "fl (1 / 2 ^ 44 + 180) = 1 / 2 ^ 44 + 180"
    by (rule fl_exact [of _ "180 * 2 ^ 44 + 1" "- 44"]) (simp_all add: pow2_def)
  have s: "1 / 2 ^ 44 + 180 - 90 = (1 / 2 ^ 44 + 90 :: rat)" by simp
  have q: "fl (1 / 2 ^ 44 + 90) = 1 / 2 ^ 44 + 90"
    by (rule fl_exact [of _ "90 * 2 ^ 44 + 1" "- 44"]) (simp_all add: pow2_def)
  have r: "js_rem (1 / 2 ^ 44 + 90) 360 = 1 / 2 ^ 44 + 90"
    by (simp add: js_rem_def js_trunc_def floor_rat_numeral)
  show ?thesis unfolding p s q r by simp
qed

lemma degrees_at_tiny_plus_360: "js_rem (fl (fl (1 / 2 ^ 44 + 360 + 180) - 90)) 360 = 90"
proof -
  have "fl (1 / 2 ^ 44 + 360 + 180) = 540"
    by (subst fl_at [of 9]) (simp_all add: pow2_def round_even_def Let_def floor_rat_numeral)
  moreover have "fl (540 - 90) = 450" using fl_quarter [of 1800] by simp
  ultimately show ?thesis by (simp add: js_rem_def js_trunc_def floor_rat_numeral)
qed

lemma radians_tiny: "fl (fl ((90 + 1 / 2 ^ 44) * Math_PI) / 180) = 1768559438007111 / 2 ^ 50"
proof -
  have p: "fl ((90 + 1 / 2 ^ 44) * Math_PI) = 621759177424375 / 2 ^ 41"
    by (subst fl_at [of 8])
      (simp_all add: Math_PI_def pow2_def round_even_def Let_def floor_rat_numeral)
  have r: "fl (621759177424375 / 2 ^ 41 / 180) = 1768559438007111 / 2 ^ 50"
    by (subst fl_at [of 0])
      (simp_all add: pow2_def round_even_def Let_def floor_rat_numeral)
  show ?thesis unfolding p r ..
qed

lemma radians_90: "fl (fl (90 * Math_PI) / 180) = 884279719003555 / 2 ^ 49"
proof -
  have p: "fl (90 * Math_PI) = 4974073419394997 / 2 ^ 44"
    by (subst fl_at [of 8])
      (simp_all add: Math_PI_def pow2_def round_even_def Let_def floor_rat_numeral)
  have r: "fl (4974073419394997 / 2 ^ 44 / 180) = 884279719003555 / 2 ^ 49"
    by (subst fl_at [of 0])
      (simp_all add: pow2_def round_even_def Let_def floor_rat_numeral)
  show ?thesis unfolding p r ..
qed

lemma degrees_at_2_60: "js_rem (fl (fl (2 ^ 60 + 180) - 90)) 360 = 32"
proof -
  have p: "fl (2 ^ 60 + 180) = 2 ^ 60 + 256"
    by (subst fl_at [of 60]) (simp_all add: pow2_def round_even_def Let_def floor_rat_numeral)
  have s: "2 ^ 60 + 256 - 90 = (2 ^ 60 + 166 :: rat)" by simp
  have q: "fl (2 ^ 60 + 166) = 2 ^ 60 + 256"
    by (subst fl_at [of 60]) (simp_all add: pow2_def round_even_def Let_def floor_rat_numeral)
  have r: "js_rem (2 ^ 60 + 256) 360 = 32"
    by (simp add: js_rem_def js_trunc_def floor_rat_numeral)
  show ?thesis unfolding p s q r ..
qed

lemma of_decimal_exact:
  assumes "q = of_int n * pow2 k" and "\<bar>n\<bar> < 2 ^ 53" and "- 1074 \<le> k" and "q < 2 ^ 1024"
  shows "of_decimal q = (if of_int \<lfloor>q\<rfloor> = q then JInt \<lfloor>q\<rfloor> else JDbl q)"
  using assms(4) by (simp add: of_decimal_def fl_exact [OF assms(1-3)] Let_def)

lemmas number_parse =
  Number_js_def trim_ws_def is_ws_def nondecimal_def str_decimal_def unsigned_decimal_def
  is_digit_def dec_value_def digit_val_def pow10_def Let_def

lemma Number_24_5: "Number_js ''24.5'' = JDbl (49 / 2)"
proof -
  have "of_decimal (49 / 2) = JDbl (49 / 2)"
    by (subst of_decimal_exact [of _ 49 "- 1"]) (simp_all add: pow2_def floor_rat_numeral)
  then show ?thesis by (simp add: number_parse)
qed

lemma Number_59_5: "Number_js ''59.5'' = JDbl (119 / 2)"
proof -
  have "of_decimal (119 / 2) = JDbl (119 / 2)"
    by (subst of_decimal_exact [of _ 119 "- 1"]) (simp_all add: pow2_def floor_rat_numeral)
  then show ?thesis by (simp add: number_parse)
qed

lemma Number_minus_0_5: "Number_js ''-0.5'' = JDbl (- (1 / 2))"
proof -
  have f: "\<lfloor>1 / 2 :: rat\<rfloor> = 0" by (simp add: floor_eq_iff)
  have "of_decimal (1 / 2) = JDbl (1 / 2)"
    by (subst of_decimal_exact [of _ 1 "- 1"]) (simp_all add: pow2_def f)
  then show ?thesis by (simp add: number_parse)
qed

lemma Number_1e3: "Number_js ''1e3'' = JInt 1000"
proof -
  have "of_decimal 1000 = JInt 1000"
    by (subst of_decimal_exact [of _ 1000 0]) (simp_all add: pow2_def)
  then show ?thesis by (simp add: number_parse)
qed

lemma Number_Infinity: "Number_js ''Infinity'' = JPosInf"
  by (simp add: number_parse)

lemma isNaN_iff: "isNaN n \<longleftrightarrow> n = JNaN"
  by (cases n) auto

section \<open>Claims\<close>

text \<open>
  C1. The claim: for every valid sunset \<open>"HH:MM"\<close>, \<open>getTwilight\<close> with \<open>"pm"\<close> returns the
  sunset time plus 96 minutes. The code does not: it first reduces the hour to the
  12-hour clock, and its two branches add 84 minutes. For the sunset \<open>"18:30"\<close> it returns
  \<open>"07:54"\<close>, where 96 minutes later is 20:06; for \<open>"06:30"\<close>, where the 12-hour reduction
  changes nothing, it returns \<open>"07:54"\<close> as well, 84 minutes later.
\<close>

theorem getTwilight_pm_at_1830:
  "getTwilight ''18:30'' ''pm'' = Val (''07:54'', []) \<and>
   getTwilight ''06:30'' ''pm'' = Val (''07:54'', [])"
  by (intro conjI; code_simp)

text \<open>
  C2, as amended. For every angle \<open>a\<close> that is a whole number of quarter degrees (as is
  every angle that \<open>getAngle\<close> returns and every angle the renderer makes of one by adding
  or subtracting 24 or 90), with \<open>a\<close> from \<open>-90\<close> up to \<open>2^50\<close>: \<open>getRenderAngle a\<close> is the
  radian conversion, \<open>d * Math.PI / 180\<close> in double arithmetic, of the mathematical modulo
  \<open>d\<close> of \<open>a + 180 - 90\<close> by 360, \<open>d\<close> lies in \<open>[0, 360)\<close>, the result is not negative, and
  \<open>getRenderAngle (a + 360) = getRenderAngle a\<close>.
\<close>

theorem getRenderAngle_quarter_degrees:
  assumes "a = of_int k / 4" and "- 90 \<le> a" and "a \<le> 2 ^ 50"
    and "d = (a + 180 - 90) - 360 * of_int \<lfloor>(a + 180 - 90) / 360\<rfloor>"
  shows "0 \<le> d \<and> d < 360 \<and>
         getRenderAngle a = fl (fl (d * Math_PI) / 180) \<and>
         0 \<le> getRenderAngle a \<and>
         getRenderAngle (a + 360) = getRenderAngle a"
proof -
  define x where "x = a + 180 - 90"
  have xn: "0 \<le> x" unfolding x_def using assms(2) by simp
  have d: "d = x - 360 * of_int \<lfloor>x / 360\<rfloor>" unfolding x_def by (rule assms(4))
  have "of_int \<lfloor>x / 360\<rfloor> \<le> x / 360" by (rule of_int_floor_le)
  then have d0: "0 \<le> d" unfolding d by simp
  have "x / 360 < of_int \<lfloor>x / 360\<rfloor> + 1" by linarith
  then have d1: "d < 360" unfolding d by simp
  have e1: "fl (fl (a + 180) - 90) = x"
    unfolding x_def using assms(1-3) by (intro render_degrees_quarter [of a k]) simp_all
  have g: "getRenderAngle a = fl (fl (d * Math_PI) / 180)"
    unfolding getRenderAngle_def Let_def e1 js_rem_nonneg [OF xn] d ..
  have "0 \<le> d * Math_PI" using d0 by (simp add: Math_PI_def)
  then have "0 \<le> fl (d * Math_PI) / 180" using fl_nonneg by simp
  then have p: "0 \<le> getRenderAngle a" unfolding g by (rule fl_nonneg)
  have a': "a + 360 = of_int (k + 1440) / 4" unfolding assms(1) by simp
  have e2: "fl (fl (a + 360 + 180) - 90) = x + 360"
  proof -
    have "fl (fl (a + 360 + 180) - 90) = a + 360 + 180 - 90"
      using assms(2,3) by (intro render_degrees_quarter [OF a']) simp_all
    then show ?thesis unfolding x_def by simp
  qed
  have xn': "0 \<le> x + 360" using xn by simp
  have "(x + 360) / 360 = x / 360 + of_int 1" by simp
  then have fl': "\<lfloor>(x + 360) / 360\<rfloor> = \<lfloor>x / 360\<rfloor> + 1" by (simp only: floor_add_int)
  have "x + 360 - 360 * of_int \<lfloor>(x + 360) / 360\<rfloor> = d" unfolding fl' d by simp
  then have "getRenderAngle (a + 360) = fl (fl (d * Math_PI) / 180)"
    unfolding getRenderAngle_def Let_def e2 js_rem_nonneg [OF xn'] by simp
  then show ?thesis using d0 d1 g p by simp
qed

text \<open>The amended C2 at the twilight angle of a sunrise at midnight, \<open>0 - 24\<close>.\<close>

theorem getRenderAngle_quarter_degrees_witness:
  "getRenderAngle (- 24) = fl (fl (66 * Math_PI) / 180) \<and>
   getRenderAngle (- 24 + 360) = getRenderAngle (- 24)"
  using getRenderAngle_quarter_degrees [of "- 24" "- 96" 66] by (simp add: floor_rat_numeral)

text \<open>
  C2 as stated, for every real angle, fails in three ways. Below \<open>-90\<close> the remainder
  \<open>%\<close> truncates: \<open>getRenderAngle (-100)\<close> is the conversion of \<open>-10\<close> degrees, a negative
  number, where the mathematical modulo is 350, and it differs from \<open>getRenderAngle 260\<close>.
  Off the quarter degrees the additions round: the doubles \<open>2^-44\<close> and \<open>2^-44 + 360\<close> are
  exactly 360 apart and their render angles differ. And far up the additions round as
  well: \<open>getRenderAngle (2^60)\<close> is the conversion of 32 degrees, where the mathematical
  modulo of \<open>2^60 + 90\<close> is 226.
\<close>

theorem getRenderAngle_counterexamples:
  "getRenderAngle (- 100) = fl (fl (- 10 * Math_PI) / 180) \<and>
   getRenderAngle (- 100) < 0 \<and>
   (- 100 + 180 - 90) - 360 * of_int \<lfloor>(- 100 + 180 - 90 :: rat) / 360\<rfloor> = (350 :: rat) \<and>
   0 \<le> getRenderAngle (- 100 + 360) \<and>
   getRenderAngle (- 100) \<noteq> getRenderAngle (- 100 + 360) \<and>
   fl (1 / 2 ^ 44) = 1 / 2 ^ 44 \<and>
   fl (1 / 2 ^ 44 + 360) = 1 / 2 ^ 44 + 360 \<and>
   getRenderAngle (1 / 2 ^ 44) = 1768559438007111 / 2 ^ 50 \<and>
   getRenderAngle (1 / 2 ^ 44 + 360) = 884279719003555 / 2 ^ 49 \<and>
   getRenderAngle (1 / 2 ^ 44) \<noteq> getRenderAngle (1 / 2 ^ 44 + 360) \<and>
   fl (2 ^ 60) = 2 ^ 60 \<and>
   getRenderAngle (2 ^ 60) = fl (fl (32 * Math_PI) / 180) \<and>
   (2 ^ 60 + 180 - 90) - 360 * of_int \<lfloor>(2 ^ 60 + 180 - 90 :: rat) / 360\<rfloor> = (226 :: rat)"
proof -
  have a: "getRenderAngle (- 100) = fl (fl (- 10 * Math_PI) / 180)"
    unfolding getRenderAngle_def Let_def degrees_at_minus_100 ..
  have b: "getRenderAngle (- 100) < 0" unfolding a by (rule radians_minus_10)
  have c: "(- 100 + 180 - 90) - 360 * of_int \<lfloor>(- 100 + 180 - 90 :: rat) / 360\<rfloor> = (350 :: rat)"
  proof -
    have "\<lfloor>- (1 / 36 :: rat)\<rfloor> = - 1" by (simp add: floor_eq_iff)
    then show ?thesis by simp
  qed
  have d: "0 \<le> getRenderAngle (- 100 + 360)"
    using getRenderAngle_quarter_degrees [of 260 1040 350] by (simp add: floor_rat_numeral)
  have e: "fl (1 / 2 ^ 44) = 1 / 2 ^ 44"
    by (rule fl_exact [of _ 1 "- 44"]) (simp_all add: pow2_def)
  have f: "fl (1 / 2 ^ 44 + 360) = 1 / 2 ^ 44 + 360"
    by (rule fl_exact [of _ "360 * 2 ^ 44 + 1" "- 44"]) (simp_all add: pow2_def)
  have g: "getRenderAngle (1 / 2 ^ 44) = 1768559438007111 / 2 ^ 50"
    unfolding getRenderAngle_def Let_def degrees_at_tiny radians_tiny ..
  have h: "getRenderAngle (1 / 2 ^ 44 + 360) = 884279719003555 / 2 ^ 49"
    unfolding getRenderAngle_def Let_def degrees_at_tiny_plus_360 radians_90 ..
  have i: "getRenderAngle (1 / 2 ^ 44) \<noteq> getRenderAngle (1 / 2 ^ 44 + 360)"
    unfolding g h by simp
  have j: "fl (2 ^ 60) = 2 ^ 60"
    by (rule fl_exact [of _ "2 ^ 52" 8]) (simp_all add: pow2_def)
  have k: "getRenderAngle (2 ^ 60) = fl (fl (32 * Math_PI) / 180)"
    unfolding getRenderAngle_def Let_def degrees_at_2_60 ..
  have l: "(2 ^ 60 + 180 - 90) - 360 * of_int \<lfloor>(2 ^ 60 + 180 - 90 :: rat) / 360\<rfloor> = (226 :: rat)"
    by (simp add: floor_rat_numeral)
  have m: "getRenderAngle (- 100) \<noteq> getRenderAngle (- 100 + 360)" using b d by simp
  show ?thesis using a b c d e f g h i j k l m by simp
qed

text \<open>
  C3. The claim: for every valid sunrise \<open>"HH:MM"\<close>, \<open>getTwilight\<close> with \<open>"am"\<close> returns
  \<open>(hour - 1, minute - 36)\<close> when the minute is at least 36 and \<open>(hour - 2, minute + 24)\<close>
  otherwise, with no other change of the hour. The code reduces the hour to the 12-hour
  clock first: for the sunrise \<open>"13:50"\<close> it returns \<open>"00:14"\<close>, not 12:14.
\<close>

theorem getTwilight_am_at_1350:
  "getTwilight ''13:50'' ''am'' = Val (''00:14'', [])"
  by code_simp

text \<open>
  C4. The label slots follow the branch table: a sunrise angle up to 90 takes slots 2 and
  3, one strictly between 90 and 114 slots 1 and 2, one from 114 on slots 0 and 1; a
  sunset angle up to 246 takes slots 4 and 5, one strictly between 246 and 270 slots 5 and
  6, one from 270 to 290 slots 6 and 7, one above 290 slots 7 and 8. The boundary values
  90, 114, 246, 270 and 290 fall as these bounds say, and the nine slots are different
  points, so the pair returned tells which branch was taken.
\<close>

theorem label_slots:
  "(a \<le> 90 \<longrightarrow> sunriseLabels a = (labelSlots ! 2, labelSlots ! 3)) \<and>
   (90 < a \<and> a < 114 \<longrightarrow> sunriseLabels a = (labelSlots ! 1, labelSlots ! 2)) \<and>
   (114 \<le> a \<longrightarrow> sunriseLabels a = (labelSlots ! 0, labelSlots ! 1)) \<and>
   (b \<le> 246 \<longrightarrow> sunsetLabels b = (labelSlots ! 4, labelSlots ! 5)) \<and>
   (246 < b \<and> b < 270 \<longrightarrow> sunsetLabels b = (labelSlots ! 5, labelSlots ! 6)) \<and>
   (270 \<le> b \<and> b \<le> 290 \<longrightarrow> sunsetLabels b = (labelSlots ! 6, labelSlots ! 7)) \<and>
   (290 < b \<longrightarrow> sunsetLabels b = (labelSlots ! 7, labelSlots ! 8)) \<and>
   sunriseLabels 90 = (labelSlots ! 2, labelSlots ! 3) \<and>
   sunriseLabels 114 = (labelSlots ! 0, labelSlots ! 1) \<and>
   sunsetLabels 246 = (labelSlots ! 4, labelSlots ! 5) \<and>
   sunsetLabels 270 = (labelSlots ! 6, labelSlots ! 7) \<and>
   sunsetLabels 290 = (labelSlots ! 6, labelSlots ! 7) \<and>
   length labelSlots = 9 \<and> distinct labelSlots"
proof -
  have "length labelSlots = 9 \<and> distinct labelSlots"
    by (simp add: labelSlots_def)
  then show ?thesis
    by (simp add: sunriseLabels_def sunsetLabels_def twilightDegrees_def)
qed

text \<open>C4 at one angle inside each of the seven branches.\<close>

theorem label_slots_witness:
  "sunriseLabels 77.5 = (labelSlots ! 2, labelSlots ! 3) \<and>
   sunriseLabels 100 = (labelSlots ! 1, labelSlots ! 2) \<and>
   sunriseLabels 120 = (labelSlots ! 0, labelSlots ! 1) \<and>
   sunsetLabels 245 = (labelSlots ! 4, labelSlots ! 5) \<and>
   sunsetLabels 260 = (labelSlots ! 5, labelSlots ! 6) \<and>
   sunsetLabels 280 = (labelSlots ! 6, labelSlots ! 7) \<and>
   sunsetLabels 306.25 = (labelSlots ! 7, labelSlots ! 8)"
  using label_slots [of "77.5" 245] label_slots [of 100 260] label_slots [of 120 280]
    label_slots [of 120 "306.25"]
  by simp

text \<open>
  C5. The claim: for every valid sunrise, \<open>getTwilight\<close> with \<open>"am"\<close> followed by adding 96
  minutes modulo 24 hours gives the sunrise back. For the sunrise \<open>"13:40"\<close> the code
  returns \<open>"00:04"\<close>, and 96 minutes after 00:04 is 01:40.
\<close>

theorem getTwilight_am_at_1340:
  "getTwilight ''13:40'' ''am'' = Val (''00:04'', []) \<and>
   (0 * 60 + 4 + 96) mod 1440 = (1 * 60 + 40 :: int)"
  by (rule conjI, code_simp, simp)

text \<open>
  C6, as amended. For every time string that has fewer than two colon-separated fields,
  or whose hour or minute field \<open>Number\<close> converts to \<open>NaN\<close>, or to a number below 0 or
  above 23 for the hour, below 0 or above 59 for the minute, \<open>getAngle\<close> returns 0 and
  logs one warning and \<open>formatTime\<close> returns the empty string and logs one warning; both
  return.
\<close>

theorem malformed_time:
  assumes "length (split_colon s) < 2 \<or>
           Number_js (split_colon s ! 0) = JNaN \<or>
           Number_js (split_colon s ! 1) = JNaN \<or>
           js_lt (Number_js (split_colon s ! 0)) 0 \<or>
           js_gt (Number_js (split_colon s ! 0)) 23 \<or>
           js_lt (Number_js (split_colon s ! 1)) 0 \<or>
           js_gt (Number_js (split_colon s ! 1)) 59"
  shows "getAngle s =
           Val (0, [''SunImage: getAngle() failed on input '' @ [dquote] @ s @ [dquote]]) \<and>
         formatTime s =
           Val ('''', [''SunImage: formatTime() failed on input '' @ [dquote] @ s])"
proof -
  have "badTime (split_colon s)"
  proof (cases "length (split_colon s) < 2")
    case True
    then show ?thesis by (simp add: badTime_def)
  next
    case False
    then have "0 < length (split_colon s)" and "1 < length (split_colon s)"
      by arith+
    then have "field_num (split_colon s) 0 = Number_js (split_colon s ! 0)"
      and "field_num (split_colon s) 1 = Number_js (split_colon s ! 1)"
      unfolding field_num_def by simp_all
    then show ?thesis using assms False by (auto simp: badTime_def isNaN_iff)
  qed
  then show ?thesis by (simp add: getAngle_def formatTime_def)
qed

text \<open>
  The amended C6 at the strings the specification lists, \<open>"25:00"\<close>, \<open>"12:60"\<close>, \<open>"abc"\<close>
  and \<open>"12"\<close>, at the marker \<open>"-:-"\<close> of a day without moonrise, and at fields that are
  numbers out of range without being whole: an infinity, a fraction, an exponent.
\<close>

theorem malformed_time_witness:
  "getAngle ''25:00'' =
     Val (0, [''SunImage: getAngle() failed on input '' @ [dquote] @ ''25:00'' @ [dquote]]) \<and>
   getAngle ''12:60'' =
     Val (0, [''SunImage: getAngle() failed on input '' @ [dquote] @ ''12:60'' @ [dquote]]) \<and>
   getAngle ''abc'' =
     Val (0, [''SunImage: getAngle() failed on input '' @ [dquote] @ ''abc'' @ [dquote]]) \<and>
   getAngle ''12'' =
     Val (0, [''SunImage: getAngle() failed on input '' @ [dquote] @ ''12'' @ [dquote]]) \<and>
   getAngle ''-:-'' =
     Val (0, [''SunImage: getAngle() failed on input '' @ [dquote] @ ''-:-'' @ [dquote]]) \<and>
   formatTime ''-:-'' =
     Val ('''', [''SunImage: formatTime() failed on input '' @ [dquote] @ ''-:-'']) \<and>
   getAngle ''Infinity:00'' =
     Val (0, [''SunImage: getAngle() failed on input '' @ [dquote] @ ''Infinity:00'' @ [dquote]]) \<and>
   getAngle ''24.5:00'' =
     Val (0, [''SunImage: getAngle() failed on input '' @ [dquote] @ ''24.5:00'' @ [dquote]]) \<and>
   getAngle ''1e3:00'' =
     Val (0, [''SunImage: getAngle() failed on input '' @ [dquote] @ ''1e3:00'' @ [dquote]]) \<and>
   getAngle ''12:59.5'' =
     Val (0, [''SunImage: getAngle() failed on input '' @ [dquote] @ ''12:59.5'' @ [dquote]]) \<and>
   getAngle ''-0.5:00'' =
     Val (0, [''SunImage: getAngle() failed on input '' @ [dquote] @ ''-0.5:00'' @ [dquote]]) \<and>
   formatTime ''24.5:00'' =
     Val ('''', [''SunImage: formatTime() failed on input '' @ [dquote] @ ''24.5:00''])"
proof -
  have "Number_js (split_colon ''25:00'' ! 0) = JInt 25" by code_simp
  then have a: "js_gt (Number_js (split_colon ''25:00'' ! 0)) 23" by simp
  have "Number_js (split_colon ''12:60'' ! 1) = JInt 60" by code_simp
  then have b: "js_gt (Number_js (split_colon ''12:60'' ! 1)) 59" by simp
  have c: "length (split_colon ''abc'') < 2" by simp
  have d: "length (split_colon ''12'') < 2" by simp
  have e: "Number_js (split_colon ''-:-'' ! 0) = JNaN" by code_simp
  have f: "js_gt (Number_js (split_colon ''Infinity:00'' ! 0)) 23"
    by (simp add: Number_Infinity)
  have g: "js_gt (Number_js (split_colon ''24.5:00'' ! 0)) 23"
    by (simp add: Number_24_5)
  have h: "js_gt (Number_js (split_colon ''1e3:00'' ! 0)) 23"
    by (simp add: Number_1e3)
  have i: "js_gt (Number_js (split_colon ''12:59.5'' ! 1)) 59"
    by (simp add: Number_59_5)
  have j: "js_lt (Number_js (split_colon ''-0.5:00'' ! 0)) 0"
    by (simp add: Number_minus_0_5)
  show ?thesis
    using malformed_time [of "''25:00''"] malformed_time [of "''12:60''"]
      malformed_time [of "''abc''"] malformed_time [of "''12''"] malformed_time [of "''-:-''"]
      malformed_time [of "''Infinity:00''"] malformed_time [of "''24.5:00''"]
      malformed_time [of "''1e3:00''"] malformed_time [of "''12:59.5''"]
      malformed_time [of "''-0.5:00''"]
      a b c d e f g h i j
    by blast
qed

text \<open>
  C6 as stated fails for a field that is not numeric and that \<open>Number\<close> still converts to
  a number: \<open>"12:"\<close> has two fields, its minute field is empty, \<open>Number("")\<close> is 0, and the
  string is accepted as 12:00 without a warning.
\<close>

theorem empty_minute_accepted:
  "split_colon ''12:'' = [''12'', ''''] \<and>
   getAngle ''12:'' = Val (180, []) \<and>
   formatTime ''12:'' = Val (''12:00 PM'', [])"
  by (intro conjI; code_simp)

text \<open>
  C7. For every time string whose first two colon-separated fields are read as an hour
  \<open>h\<close> in 0..23 and a minute \<open>m\<close> in 0..59, \<open>getAngle\<close> returns \<open>h * 15 + m / 4\<close> and
  logs nothing, whatever fields follow; in particular it returns 0 for \<open>"00:00"\<close>, 90 for
  \<open>"06:00"\<close>, 270 for \<open>"18:00"\<close> and 359.75 for \<open>"23:59"\<close>.
\<close>

theorem getAngle_valid:
  assumes "split_colon s = hf # mf # rest" and "Number_js hf = JInt h"
    and "Number_js mf = JInt m" and "0 \<le> h" and "h \<le> 23" and "0 \<le> m" and "m \<le> 59"
  shows "getAngle s = Val (of_int h * 15 + of_int m / 4, []) \<and>
         getAngle ''00:00'' = Val (0, []) \<and>
         getAngle ''06:00'' = Val (90, []) \<and>
         getAngle ''18:00'' = Val (270, []) \<and>
         getAngle ''23:59'' = Val (359.75, [])"
proof -
  have e0: "getAngle ''00:00'' = Val (0, [])"
    using getAngle_fields [of "''00:00''" "''00''" "''00''" "[]" 0 0]
    by (simp add: Number_js_digits is_digit_def dec_value_def digit_val_def)
  have e1: "getAngle ''06:00'' = Val (90, [])"
    using getAngle_fields [of "''06:00''" "''06''" "''00''" "[]" 6 0]
    by (simp add: Number_js_digits is_digit_def dec_value_def digit_val_def)
  have e2: "getAngle ''18:00'' = Val (270, [])"
    using getAngle_fields [of "''18:00''" "''18''" "''00''" "[]" 18 0]
    by (simp add: Number_js_digits is_digit_def dec_value_def digit_val_def)
  have e3: "getAngle ''23:59'' = Val (359.75, [])"
    using getAngle_fields [of "''23:59''" "''23''" "''59''" "[]" 23 59]
    by (simp add: Number_js_digits is_digit_def dec_value_def digit_val_def)
  show ?thesis using getAngle_fields [OF assms] e0 e1 e2 e3 by simp
qed

text \<open>C7 at the current time of the source's comment, with seconds and milliseconds.\<close>

theorem getAngle_valid_witness:
  "getAngle ''08:21:14.988'' = Val (125.25, [])"
  using getAngle_valid [of "''08:21:14.988''" "''08''" "''21''" "[''14.988'']" 8 21]
  by (simp add: Number_js_digits is_digit_def dec_value_def digit_val_def)

text \<open>
  C8. For every valid \<open>"HH:MM"\<close>, \<open>formatTime\<close> returns the hour modulo 12 with 0 shown as
  12, a colon, the minute as two digits, a space, and \<open>PM\<close> exactly when the hour is at
  least 12; in particular \<open>"12:00 AM"\<close> for \<open>"00:00"\<close>, \<open>"12:00 PM"\<close> for \<open>"12:00"\<close>,
  \<open>"11:59 PM"\<close> for \<open>"23:59"\<close> and \<open>"9:05 AM"\<close> for \<open>"09:05"\<close>.
\<close>

theorem formatTime_valid:
  assumes "0 \<le> h" and "h \<le> 23" and "0 \<le> m" and "m \<le> 59"
  shows "formatTime (pad2 h @ '':'' @ pad2 m) =
           Val (num_str (if h mod 12 = 0 then 12 else h mod 12) @ '':'' @
                [digit_char (nat m div 10), digit_char (nat m mod 10)] @ '' '' @
                (if 12 \<le> h then ''PM'' else ''AM''), []) \<and>
         formatTime ''00:00'' = Val (''12:00 AM'', []) \<and>
         formatTime ''12:00'' = Val (''12:00 PM'', []) \<and>
         formatTime ''23:59'' = Val (''11:59 PM'', []) \<and>
         formatTime ''09:05'' = Val (''9:05 AM'', [])"
proof -
  have g: "formatTime (pad2 h @ '':'' @ pad2 m) =
           Val (num_str (if h mod 12 = 0 then 12 else h mod 12) @ '':'' @
                pad2 m @ '' '' @ (if 12 \<le> h then ''PM'' else ''AM''), [])"
    using assms
    by (intro formatTime_fields [OF split_hhmm Number_js_hour Number_js_minute])
  have p: "pad2 m = [digit_char (nat m div 10), digit_char (nat m mod 10)]"
    using assms by (simp add: pad2_two)
  have e0: "formatTime ''00:00'' = Val (''12:00 AM'', [])" by code_simp
  have e1: "formatTime ''12:00'' = Val (''12:00 PM'', [])" by code_simp
  have e2: "formatTime ''23:59'' = Val (''11:59 PM'', [])" by code_simp
  have e3: "formatTime ''09:05'' = Val (''9:05 AM'', [])" by code_simp
  show ?thesis using g p e0 e1 e2 e3 by simp
qed

text \<open>C8 at the example of the source's comment, 22:45.\<close>

theorem formatTime_valid_witness:
  "formatTime (pad2 22 @ '':'' @ pad2 45) =
     Val (num_str 10 @ '':'' @ [digit_char 4, digit_char 5] @ '' PM'', [])"
  using formatTime_valid [of 22 45] by simp

text \<open>
  C9. For valid sunrise, sunset and current-time strings (the current time with its
  seconds), the three angles are computed without a warning, and the inner disc of the
  sun marker is filled with \<open>sunUpColor\<close> exactly when the current angle lies strictly
  between the sunrise angle and the sunset angle, which is when the current time of day
  lies strictly between sunrise and sunset; otherwise it is filled with \<open>sunDownColor\<close>,
  a different colour.
\<close>

theorem sunFillStyle_valid:
  assumes "0 \<le> hr" and "hr \<le> 23" and "0 \<le> mr" and "mr \<le> 59"
    and "0 \<le> hs" and "hs \<le> 23" and "0 \<le> ms" and "ms \<le> 59"
    and "0 \<le> hc" and "hc \<le> 23" and "0 \<le> mc" and "mc \<le> 59"
  shows "(\<exists>sunriseAngle sunsetAngle currentTimeAngle.
            getAngle (pad2 hr @ '':'' @ pad2 mr) = Val (sunriseAngle, []) \<and>
            getAngle (pad2 hs @ '':'' @ pad2 ms) = Val (sunsetAngle, []) \<and>
            getAngle (pad2 hc @ '':'' @ pad2 mc @ '':'' @ secs) = Val (currentTimeAngle, []) \<and>
            sunFillStyle currentTimeAngle sunriseAngle sunsetAngle =
              (if sunriseAngle < currentTimeAngle \<and> currentTimeAngle < sunsetAngle
               then sunUpColor else sunDownColor) \<and>
            (sunriseAngle < currentTimeAngle \<and> currentTimeAngle < sunsetAngle
               \<longleftrightarrow> 60 * hr + mr < 60 * hc + mc \<and> 60 * hc + mc < 60 * hs + ms)) \<and>
         sunUpColor \<noteq> sunDownColor"
proof -
  have r: "getAngle (pad2 hr @ '':'' @ pad2 mr) = Val (of_int hr * 15 + of_int mr / 4, [])"
    using assms by (intro getAngle_fields [OF split_hhmm Number_js_hour Number_js_minute])
  have s: "getAngle (pad2 hs @ '':'' @ pad2 ms) = Val (of_int hs * 15 + of_int ms / 4, [])"
    using assms by (intro getAngle_fields [OF split_hhmm Number_js_hour Number_js_minute])
  have c: "getAngle (pad2 hc @ '':'' @ pad2 mc @ '':'' @ secs) =
             Val (of_int hc * 15 + of_int mc / 4, [])"
    using assms by (intro getAngle_fields [OF split_hhmm_more Number_js_hour Number_js_minute])
  have lt: "(of_int a * 15 + of_int b / 4 < (of_int a' * 15 + of_int b' / 4 :: real))
              \<longleftrightarrow> 60 * a + b < 60 * a' + b'" for a b a' b' :: int
  proof -
    have "(of_int a * 15 + of_int b / 4 :: real) = of_int (60 * a + b) / 4" by simp
    moreover have "(of_int a' * 15 + of_int b' / 4 :: real) = of_int (60 * a' + b') / 4" by simp
    ultimately show ?thesis by (simp only: divide_less_cancel of_int_less_iff) simp
  qed
  have f: "sunFillStyle c' r' s' = (if r' < c' \<and> c' < s' then sunUpColor else sunDownColor)"
    for c' r' s'
    unfolding sunFillStyle_def by simp
  have "sunUpColor \<noteq> sunDownColor"
    by (simp add: sunUpColor_def sunDownColor_def)
  then show ?thesis using r s c f lt by blast
qed

text \<open>C9 at the times of the source's comments: sunrise 06:20, sunset 19:04, now 08:21.\<close>

theorem sunFillStyle_valid_witness:
  "\<exists>sunriseAngle sunsetAngle currentTimeAngle.
     getAngle (pad2 6 @ '':'' @ pad2 20) = Val (sunriseAngle, []) \<and>
     getAngle (pad2 19 @ '':'' @ pad2 4) = Val (sunsetAngle, []) \<and>
     getAngle (pad2 8 @ '':'' @ pad2 21 @ '':'' @ ''14.988'') = Val (currentTimeAngle, []) \<and>
     sunFillStyle currentTimeAngle sunriseAngle sunsetAngle = sunUpColor"
proof -
  from sunFillStyle_valid [of 6 20 19 4 8 21 "''14.988''"]
  obtain sr ss c where
    "getAngle (pad2 6 @ '':'' @ pad2 20) = Val (sr, [])"
    "getAngle (pad2 19 @ '':'' @ pad2 4) = Val (ss, [])"
    "getAngle (pad2 8 @ '':'' @ pad2 21 @ '':'' @ ''14.988'') = Val (c, [])"
    "sunFillStyle c sr ss = (if sr < c \<and> c < ss then sunUpColor else sunDownColor)"
    "sr < c \<and> c < ss"
    by auto
  then show ?thesis by auto
qed

text \<open>
  C10. For every valid \<open>"HH:MM"\<close> and either branch, the string that \<open>getTwilight\<close> returns
  is an hour part without a colon, a colon and a minute written as two digits; the minute
  is \<open>m - 36\<close>, within 0..23, when \<open>m\<close> is at least 36 and \<open>m + 24\<close>, within 24..59,
  otherwise, and \<open>Number\<close> reads the two digits back as that minute. The hour part can
  leave the range: for \<open>"01:10"\<close> and \<open>"am"\<close> it is \<open>"0-1"\<close>, which \<open>Number\<close> reads as \<open>NaN\<close>.
\<close>

theorem getTwilight_minute:
  assumes "0 \<le> h" and "h \<le> 23" and "0 \<le> m" and "m \<le> 59"
    and "m' = (if 36 \<le> m then m - 36 else m + 24)"
  shows "(\<exists>hourStr. CHR '':'' \<notin> set hourStr \<and>
            getTwilight (pad2 h @ '':'' @ pad2 m) amPm =
              Val (hourStr @ '':'' @ [digit_char (nat m' div 10), digit_char (nat m' mod 10)], [])) \<and>
         Number_js [digit_char (nat m' div 10), digit_char (nat m' mod 10)] = JInt m' \<and>
         0 \<le> m' \<and> m' \<le> 59 \<and> (36 \<le> m \<longrightarrow> m' \<le> 23) \<and> (m < 36 \<longrightarrow> 24 \<le> m') \<and>
         getTwilight ''01:10'' ''am'' = Val (''0-1:34'', []) \<and> Number_js ''0-1'' = JNaN"
proof -
  have r: "0 \<le> m'" "m' \<le> 59" using assms by auto
  have p: "pad2 m' = [digit_char (nat m' div 10), digit_char (nat m' mod 10)]"
    using r by (simp add: pad2_two)
  have g: "getTwilight (pad2 h @ '':'' @ pad2 m) amPm =
    Val (pad2 ((if h mod 12 = 0 then 12 else h mod 12) +
               (if amPm = ''am'' then (if 36 \<le> m then - 1 else - 2)
                else (if m < 36 then 1 else 2)))
         @ '':'' @ pad2 m', [])"
    unfolding assms(5) using assms(1-4)
    by (intro getTwilight_fields [OF split_hhmm Number_js_hour Number_js_minute])
  have n: "Number_js (pad2 m') = JInt m'" using r by (simp add: Number_js_minute)
  have e: "getTwilight ''01:10'' ''am'' = Val (''0-1:34'', [])" by code_simp
  have f: "Number_js ''0-1'' = JNaN" by code_simp
  have "\<exists>hourStr. CHR '':'' \<notin> set hourStr \<and>
            getTwilight (pad2 h @ '':'' @ pad2 m) amPm = Val (hourStr @ '':'' @ pad2 m', [])"
    using g pad2_no_colon_any by blast
  then have x: "\<exists>hourStr. CHR '':'' \<notin> set hourStr \<and>
            getTwilight (pad2 h @ '':'' @ pad2 m) amPm =
              Val (hourStr @ '':'' @ [digit_char (nat m' div 10), digit_char (nat m' mod 10)], [])"
    unfolding p .
  have n': "Number_js [digit_char (nat m' div 10), digit_char (nat m' mod 10)] = JInt m'"
    using n unfolding p .
  have a: "(36 \<le> m \<longrightarrow> m' \<le> 23) \<and> (m < 36 \<longrightarrow> 24 \<le> m')"
    using assms by auto
  show ?thesis using x n' r a e f by blast
qed

text \<open>C10 at the sunrise 05:10, whose first light has the minute 34.\<close>

theorem getTwilight_minute_witness:
  "\<exists>hourStr. CHR '':'' \<notin> set hourStr \<and>
     getTwilight (pad2 5 @ '':'' @ pad2 10) ''am'' =
       Val (hourStr @ '':'' @ [digit_char 3, digit_char 4], [])"
  using getTwilight_minute [of 5 10 34 "''am''"] by simp

end
